theory Spec2Isabelle
  imports Main "HOL-Library.AList"
begin

section \<open>The AWS IoT adapter of ascoltatori (lib/awsiot\_ascoltatore.js)\<close>

text \<open>
  The adapter multiplexes many local subscribers over one broker connection. It runs on
  a single-threaded event loop: every call of the public surface, every event the
  transport emits, every acknowledgment callback and every deferred task is one turn,
  modelled as one function from the adapter's state to its new state. What the adapter
  does to the outside (calls on the transport handle, events it emits, callbacks it runs)
  is recorded in logs that are part of that state.
\<close>

subsection \<open>Values\<close>

type_synonym topic = string
type_synonym payload = string
type_synonym packet = nat
type_synonym callback = nat  \<comment> \<open>the identity of a subscriber's callback\<close>
type_synonym completion = nat  \<comment> \<open>the identity of a completion callback\<close>
type_synonym err = string    \<comment> \<open>the error object of a transport error event\<close>

datatype error = ClosedError | TypeError | PatternError

datatype outcome = Returned | Raised error

text \<open>
  The topic translations \<open>_subTopic\<close>, \<open>_pubTopic\<close> and \<open>_recvTopic\<close> are inherited
  from the base class, which is not part of this file; they are a parameter of every
  operation that uses them.
\<close>

record naming =
  subTopic :: "topic \<Rightarrow> topic"
  pubTopic :: "topic \<Rightarrow> topic"
  recvTopic :: "topic \<Rightarrow> topic"

text \<open>The translation that changes nothing, for the examples.\<close>

definition plain :: naming where
  "plain = \<lparr>subTopic = (\<lambda>t. t), pubTopic = (\<lambda>t. t), recvTopic = (\<lambda>t. t)\<rparr>"

subsection \<open>The subscription counter (subs\_counter.js)\<close>

text \<open>
  The adapter requires the class \<open>SubsCounter\<close>, whose file is missing; the spec
  (4.1) describes it. It is a mapping from pattern to the number of local subscribers,
  here an association list in insertion order, as the keys of a JavaScript object are.
\<close>

type_synonym subs_counter = "(topic \<times> nat) list"

text \<open>Modelled from the spec: the count of a pattern that is not in the mapping is 0.\<close>

definition subs_count :: "subs_counter \<Rightarrow> topic \<Rightarrow> nat" where
  "subs_count c p = (case map_of c p of None \<Rightarrow> 0 | Some n \<Rightarrow> n)"

text \<open>Modelled from the spec: the pattern is present in the mapping.\<close>

definition subs_present :: "subs_counter \<Rightarrow> topic \<Rightarrow> bool" where
  "subs_present c p = (p \<in> set (map fst c))"

text \<open>Modelled from the spec: \<open>include(pattern)\<close> is true iff the count is positive.\<close>

definition subs_include :: "subs_counter \<Rightarrow> topic \<Rightarrow> bool" where
  "subs_include c p = (0 < subs_count c p)"

text \<open>
  Modelled from the spec: \<open>add(pattern)\<close> increments the count and returns true iff
  it went from 0 to 1. The adapter ignores what it returns.
\<close>

definition subs_add :: "subs_counter \<Rightarrow> topic \<Rightarrow> bool \<times> subs_counter" where
  "subs_add c p = (subs_count c p = 0, AList.update p (Suc (subs_count c p)) c)"

text \<open>
  Modelled from the spec: \<open>remove(pattern)\<close> decrements the count and returns true
  iff it went from 1 to 0, when the pattern leaves the mapping; at count 0 it does
  nothing and returns false.
\<close>

definition subs_remove :: "subs_counter \<Rightarrow> topic \<Rightarrow> bool \<times> subs_counter" where
  "subs_remove c p =
     (if subs_count c p = 0 then (False, c)
      else if subs_count c p = 1 then (True, AList.delete p c)
      else (False, AList.update p (subs_count c p - 1) c))"

text \<open>
  Modelled from the spec: \<open>keys()\<close> is a snapshot of the patterns with a positive
  count. The list it returns is a value: later changes of the counter do not reach it.
\<close>

definition subs_keys :: "subs_counter \<Rightarrow> topic list" where
  "subs_keys c = map fst (filter (\<lambda>kn. 0 < snd kn) c)"

text \<open>Modelled from the spec: \<open>clear()\<close> resets every count to zero.\<close>

definition subs_clear :: "subs_counter \<Rightarrow> subs_counter" where
  "subs_clear c = []"

text \<open>The representation invariant: no pattern twice, no pattern with count 0.\<close>

definition subs_ok :: "subs_counter \<Rightarrow> bool" where
  "subs_ok c = (distinct (map fst c) \<and> 0 \<notin> set (map snd c))"

subsection \<open>The dispatch engine (trie\_ascoltatore.js)\<close>

text \<open>
  The adapter requires the class \<open>TrieAscoltatore\<close>, whose file is missing; the spec
  (4.2) describes it. The engine holds the registrations, pairs of a pattern and a
  callback. Which callbacks a published topic reaches plays no part below, so the
  engine records the messages handed to its \<open>publish\<close> and the trie is not built.
\<close>

record engine =
  regs :: "(topic \<times> callback) list"
  handed :: "(topic \<times> payload \<times> packet) list"

text \<open>
  The segments of a topic; the separator \<open>/\<close> and the wildcards \<open>+\<close> and \<open>#\<close>
  are the native settings the adapter's constructor passes to the base class.
\<close>

fun segments :: "string \<Rightarrow> string list" where
  "segments [] = [[]]"
| "segments (c # cs) =
     (if c = CHR ''/'' then [] # segments cs
      else (case segments cs of [] \<Rightarrow> [[c]] | s # ss \<Rightarrow> (c # s) # ss))"

text \<open>
  Modelled from the spec: a pattern is malformed when it is empty or has the
  multi-level wildcard before its last segment.
\<close>

definition valid_pattern :: "topic \<Rightarrow> bool" where
  "valid_pattern p = (p \<noteq> [] \<and> ''#'' \<notin> set (butlast (segments p)))"

definition engine_new :: engine where
  "engine_new = \<lparr>regs = [], handed = []\<rparr>"

text \<open>
  Modelled from the spec: \<open>subscribe(pattern, callback)\<close> raises on a malformed
  pattern; the callbacks of a pattern are a set, so that registering the same callback
  for the same pattern again leaves one entry.
\<close>

definition engine_subscribe :: "topic \<Rightarrow> callback \<Rightarrow> engine \<Rightarrow> error + engine" where
  "engine_subscribe p cb e =
     (if \<not> valid_pattern p then Inl PatternError
      else if (p, cb) \<in> set (regs e) then Inr e
      else Inr (e\<lparr>regs := regs e @ [(p, cb)]\<rparr>))"

text \<open>
  Modelled from the spec: \<open>unsubscribe(pattern, callback)\<close> removes this callback
  from this pattern.
\<close>

definition engine_unsubscribe :: "topic \<Rightarrow> callback \<Rightarrow> engine \<Rightarrow> engine" where
  "engine_unsubscribe p cb e = e\<lparr>regs := remove1 (p, cb) (regs e)\<rparr>"

text \<open>
  Modelled from the spec: \<open>publish(topic, payload)\<close> never fails; the message it
  was handed is recorded.
\<close>

definition engine_publish :: "topic \<Rightarrow> payload \<Rightarrow> packet \<Rightarrow> engine \<Rightarrow> engine" where
  "engine_publish t m k e = e\<lparr>handed := handed e @ [(t, m, k)]\<rparr>"

text \<open>Modelled from the spec: \<open>close()\<close> discards every registration.\<close>

definition engine_close :: "engine \<Rightarrow> engine" where
  "engine_close e = e\<lparr>regs := []\<rparr>"

text \<open>The registrations that are live for exactly this pattern.\<close>

definition registrations :: "engine \<Rightarrow> topic \<Rightarrow> nat" where
  "registrations e p = length (filter (\<lambda>r. fst r = p) (regs e))"

subsection \<open>The transport, the events and the task queue\<close>

text \<open>
  A call on the transport handle carries the callback the adapter passes with it. The
  transport runs that callback when the broker acknowledges the call.
\<close>

datatype ack =
    AckSubscribe completion    \<comment> \<open>the callback \<open>subscribe\<close> passes: \<open>defer(done)\<close>\<close>
  | AckReplay nat topic        \<comment> \<open>the callback \<open>reconnectTopics\<close> passes for one topic of a replay\<close>
  | AckUnsubscribe completion  \<comment> \<open>\<open>newDone\<close> of \<open>unsubscribe\<close>\<close>
  | AckPublish completion      \<comment> \<open>the callback \<open>publish\<close> passes: \<open>wrap(done)()\<close>\<close>

datatype transport_call =
    TDevice                                  \<comment> \<open>\<open>awsiot.device(opts)\<close>: the connection is started\<close>
  | TSubscribe topic nat ack                 \<comment> \<open>topic, qos, callback\<close>
  | TUnsubscribe topic ack
  | TPublish topic payload nat bool ack      \<comment> \<open>topic, message, qos, retain, callback\<close>
  | TEnd

datatype event = Ready | Error err | Closed

datatype task =
    InvokeDone completion
  | EnginePublish topic payload packet

record pub_options =
  qos :: "nat option"      \<comment> \<open>\<open>None\<close>: the field is \<open>undefined\<close>\<close>
  retain :: "bool option"

record adapter =
  client :: bool                            \<comment> \<open>\<open>this._client !== undefined\<close>\<close>
  closed :: bool                            \<comment> \<open>\<open>this._closed\<close>\<close>
  subs_counter :: subs_counter              \<comment> \<open>\<open>this._subs_counter\<close>\<close>
  ascoltatore :: engine                     \<comment> \<open>\<open>this._ascoltatore\<close>\<close>
  close_listeners :: "completion list"      \<comment> \<open>the listeners registered with \<open>once("close")\<close>\<close>
  replaying :: "(nat \<times> topic list) list"    \<comment> \<open>replays in progress: topics not yet acknowledged\<close>
  next_replay :: nat                        \<comment> \<open>the number of the next replay\<close>
  transport :: "transport_call list"        \<comment> \<open>log: the calls made on the transport\<close>
  emitted :: "event list"                   \<comment> \<open>log: the events the adapter emitted\<close>
  deferred :: "task list"                   \<comment> \<open>the task queue of the event loop\<close>
  completed :: "completion list"            \<comment> \<open>log: the completion callbacks that have run\<close>

subsection \<open>Helpers of the base class and of util.js\<close>

text \<open>
  Modelled from the spec: \<open>util.defer\<close> is missing. The spec (9) gives it the
  meaning "post to the task queue": the task runs in a later turn.
\<close>

definition util_defer :: "task \<Rightarrow> adapter \<Rightarrow> adapter" where
  "util_defer t st = st\<lparr>deferred := deferred st @ [t]\<rparr>"

text \<open>
  Modelled from the spec: \<open>util.wrap\<close> is missing. The source imports it beside
  \<open>defer\<close> and calls \<open>defer(done)\<close> wherever the spec writes "(deferred)"; it
  calls \<open>wrap(done)()\<close> in \<open>close\<close> on a closed adapter, of which the spec (4.6)
  says that it invokes \<open>done\<close> immediately, and in the acknowledgment callback of
  \<open>publish\<close>. So \<open>wrap(done)()\<close> runs \<open>done\<close> at once, in the turn of its
  caller.
\<close>

definition util_wrap :: "completion \<Rightarrow> adapter \<Rightarrow> adapter" where
  "util_wrap d st = st\<lparr>completed := completed st @ [d]\<rparr>"

text \<open>
  Modelled from the spec: the base class \<open>AbstractAscoltatore\<close> is missing, and
  nothing in the adapter's file assigns \<open>_closed\<close>. The spec (4.3, 4.6) makes the
  adapter closed when the transport's close acknowledgment has been handled, which is
  where the adapter emits \<open>closed\<close>: emitting that event sets the flag.
\<close>

definition emit :: "event \<Rightarrow> adapter \<Rightarrow> adapter" where
  "emit ev st = st\<lparr>emitted := emitted st @ [ev], closed := (closed st \<or> ev = Closed)\<rparr>"

text \<open>
  Modelled from the spec: \<open>_raiseIfClosed\<close> of the missing base class raises the
  "closed" error when the adapter is closed (spec 4.6, 7).
\<close>

definition raiseIfClosed :: "adapter \<Rightarrow> error option" where
  "raiseIfClosed st = (if closed st then Some ClosedError else None)"

definition call :: "transport_call \<Rightarrow> adapter \<Rightarrow> adapter" where
  "call c st = st\<lparr>transport := transport st @ [c]\<rparr>"

subsection \<open>The constructor and the handlers of the transport's events\<close>

text \<open>\<open>_startConn\<close>: creates the handle unless there is one.\<close>

definition startConn :: "adapter \<Rightarrow> adapter" where
  "startConn st = (if \<not> client st then call TDevice (st\<lparr>client := True\<rparr>) else st)"

definition AWSIoTAscoltatore :: adapter where
  "AWSIoTAscoltatore =
     startConn \<lparr>client = False, closed = False, subs_counter = subs_clear [],
                ascoltatore = engine_new, close_listeners = [], replaying = [],
                next_replay = 0, transport = [], emitted = [], deferred = [],
                completed = []\<rparr>"

text \<open>
  \<open>reconnectTopics\<close>, with the callback its only caller passes (emit \<open>ready\<close>).
  \<open>steed.each\<close> calls the iterator on every element in turn without waiting, and
  calls the completion once every iterator has called back; on the empty list it
  calls the completion at once. The iterator dereferences \<open>that._client\<close>: without a
  handle the first iteration raises.
\<close>

definition reconnectTopics :: "naming \<Rightarrow> adapter \<Rightarrow> outcome \<times> adapter" where
  "reconnectTopics nm st =
     (let subscribedTopics = subs_keys (subs_counter st); b = next_replay st in
      if subscribedTopics = [] then (Returned, emit Ready st)
      else if \<not> client st then (Raised TypeError, st)
      else (Returned,
            st\<lparr>transport := transport st @
                   map (\<lambda>t. TSubscribe (subTopic nm t) 1 (AckReplay b t)) subscribedTopics,
               replaying := replaying st @ [(b, subscribedTopics)],
               next_replay := Suc b\<rparr>))"

definition on_connect :: "naming \<Rightarrow> adapter \<Rightarrow> outcome \<times> adapter" where
  "on_connect nm st = reconnectTopics nm st"

definition on_message :: "naming \<Rightarrow> topic \<Rightarrow> payload \<Rightarrow> packet \<Rightarrow> adapter \<Rightarrow> adapter" where
  "on_message nm t m k st = util_defer (EnginePublish (recvTopic nm t) m k) st"

definition on_error :: "err \<Rightarrow> adapter \<Rightarrow> adapter" where
  "on_error e st = emit (Error e) (st\<lparr>client := False\<rparr>)"

text \<open>The listener \<open>close\<close> registers; the transport's close event runs each once.\<close>

definition close_listener :: "completion \<Rightarrow> adapter \<Rightarrow> adapter" where
  "close_listener d st =
     util_defer (InvokeDone d)
       (emit Closed (st\<lparr>ascoltatore := engine_close (ascoltatore st), client := False\<rparr>))"

definition on_close :: "adapter \<Rightarrow> adapter" where
  "on_close st = fold close_listener (close_listeners st) (st\<lparr>close_listeners := []\<rparr>)"

text \<open>
  The transport acknowledges a call: the callback passed with the call runs. For a
  replayed topic the callback is \<open>steed.each\<close>'s, which completes the replay when the
  last topic has called back; the transport acknowledges a call once, so a callback of
  a topic that is no longer awaited does nothing.
\<close>

fun on_ack :: "ack \<Rightarrow> adapter \<Rightarrow> adapter" where
  "on_ack (AckSubscribe d) st = util_defer (InvokeDone d) st"
| "on_ack (AckUnsubscribe d) st = util_defer (InvokeDone d) st"
| "on_ack (AckPublish d) st = util_wrap d st"
| "on_ack (AckReplay b t) st =
     (case map_of (replaying st) b of
        None \<Rightarrow> st
      | Some ts \<Rightarrow>
          if t \<notin> set ts then st
          else if remove1 t ts = []
          then emit Ready (st\<lparr>replaying := AList.delete b (replaying st)\<rparr>)
          else st\<lparr>replaying := AList.update b (remove1 t ts) (replaying st)\<rparr>)"

text \<open>The event loop runs the oldest deferred task.\<close>

fun run_task :: "task \<Rightarrow> adapter \<Rightarrow> adapter" where
  "run_task (InvokeDone d) st = st\<lparr>completed := completed st @ [d]\<rparr>"
| "run_task (EnginePublish t m k) st =
     st\<lparr>ascoltatore := engine_publish t m k (ascoltatore st)\<rparr>"

definition run_deferred :: "adapter \<Rightarrow> adapter" where
  "run_deferred st =
     (case deferred st of [] \<Rightarrow> st | t # ts \<Rightarrow> run_task t (st\<lparr>deferred := ts\<rparr>))"

subsection \<open>The public surface\<close>

text \<open>
  Each operation returns how it ended and the state it left. \<open>this._client.f(...)\<close>
  on an adapter without a handle raises a type error, before anything is passed to
  the transport.

  \<open>subscribe\<close>: a pattern the counter does not include is subscribed at the broker,
  with qos 1, and \<open>done\<close> is deferred when the broker acknowledges; otherwise
  \<open>done\<close> is deferred at once. Then the counter and the engine are told, in this
  order.
\<close>

definition subscribe :: "naming \<Rightarrow> topic \<Rightarrow> callback \<Rightarrow> completion \<Rightarrow> adapter \<Rightarrow> outcome \<times> adapter" where
  "subscribe nm t cb d st =
     (case raiseIfClosed st of
        Some e \<Rightarrow> (Raised e, st)
      | None \<Rightarrow>
          if \<not> subs_include (subs_counter st) t \<and> \<not> client st then (Raised TypeError, st)
          else
            let st1 = (if \<not> subs_include (subs_counter st) t
                       then call (TSubscribe (subTopic nm t) 1 (AckSubscribe d)) st
                       else util_defer (InvokeDone d) st);
                st2 = st1\<lparr>subs_counter := snd (subs_add (subs_counter st1) t)\<rparr>
            in (case engine_subscribe t cb (ascoltatore st2) of
                  Inl e \<Rightarrow> (Raised e, st2)
                | Inr eng \<Rightarrow> (Returned, st2\<lparr>ascoltatore := eng\<rparr>)))"

text \<open>
  \<open>publish\<close>: qos is \<open>options.qos\<close> unless \<open>options\<close> is missing or the field
  is undefined, and then 1; likewise retain, and then false.
\<close>

definition publish ::
  "naming \<Rightarrow> topic \<Rightarrow> payload \<Rightarrow> pub_options option \<Rightarrow> completion \<Rightarrow> adapter \<Rightarrow> outcome \<times> adapter" where
  "publish nm t m options d st =
     (case raiseIfClosed st of
        Some e \<Rightarrow> (Raised e, st)
      | None \<Rightarrow>
          if \<not> client st then (Raised TypeError, st)
          else (Returned,
                call (TPublish (pubTopic nm t) m
                        (case options of None \<Rightarrow> 1
                         | Some opts \<Rightarrow> (case qos opts of None \<Rightarrow> 1 | Some q \<Rightarrow> q))
                        (case options of None \<Rightarrow> False
                         | Some opts \<Rightarrow> (case retain opts of None \<Rightarrow> False | Some r \<Rightarrow> r))
                        (AckPublish d)) st))"

text \<open>
  \<open>unsubscribe\<close>: the engine and the counter are told first; a pattern the counter
  still includes needs no broker call, any other is unsubscribed at the broker.
\<close>

definition unsubscribe :: "naming \<Rightarrow> topic \<Rightarrow> callback \<Rightarrow> completion \<Rightarrow> adapter \<Rightarrow> outcome \<times> adapter" where
  "unsubscribe nm t cb d st =
     (case raiseIfClosed st of
        Some e \<Rightarrow> (Raised e, st)
      | None \<Rightarrow>
          let st1 = st\<lparr>ascoltatore := engine_unsubscribe t cb (ascoltatore st)\<rparr>;
              st2 = st1\<lparr>subs_counter := snd (subs_remove (subs_counter st1) t)\<rparr>
          in if subs_include (subs_counter st2) t then (Returned, util_defer (InvokeDone d) st2)
             else if \<not> client st2 then (Raised TypeError, st2)
             else (Returned, call (TUnsubscribe (subTopic nm t) (AckUnsubscribe d)) st2))"

text \<open>
  \<open>close\<close>: unless the adapter is closed, the counter is cleared, a listener for the
  transport's close event is registered, and the end of the transport is requested.
\<close>

definition close :: "completion \<Rightarrow> adapter \<Rightarrow> outcome \<times> adapter" where
  "close d st =
     (if \<not> closed st then
        let st1 = st\<lparr>subs_counter := subs_clear (subs_counter st)\<rparr>
        in if \<not> client st1 then (Raised TypeError, st1)
           else (Returned, call TEnd (st1\<lparr>close_listeners := close_listeners st1 @ [d]\<rparr>))
      else (Returned, util_wrap d st))"

subsection \<open>Runs\<close>

text \<open>
  One turn of the event loop: a call of the public surface, an event of the transport,
  an acknowledgment, or the next deferred task. An exception leaves the state as it was
  when it was raised.
\<close>

datatype input =
    CallSubscribe topic callback completion
  | CallUnsubscribe topic callback completion
  | CallPublish topic payload "pub_options option" completion
  | CallClose completion
  | EvConnect
  | EvMessage topic payload packet
  | EvError err
  | EvClose
  | EvAck ack
  | RunDeferred

fun step :: "naming \<Rightarrow> input \<Rightarrow> adapter \<Rightarrow> adapter" where
  "step nm (CallSubscribe t cb d) st = snd (subscribe nm t cb d st)"
| "step nm (CallUnsubscribe t cb d) st = snd (unsubscribe nm t cb d st)"
| "step nm (CallPublish t m options d) st = snd (publish nm t m options d st)"
| "step nm (CallClose d) st = snd (close d st)"
| "step nm EvConnect st = snd (on_connect nm st)"
| "step nm (EvMessage t m k) st = on_message nm t m k st"
| "step nm (EvError e) st = on_error e st"
| "step nm EvClose st = on_close st"
| "step nm (EvAck a) st = on_ack a st"
| "step nm RunDeferred st = run_deferred st"

fun run :: "naming \<Rightarrow> input list \<Rightarrow> adapter \<Rightarrow> adapter" where
  "run nm [] st = st"
| "run nm (i # ins) st = run nm ins (step nm i st)"

subsection \<open>Observations on states and runs\<close>

text \<open>The broker-level calls in the transport log, by kind.\<close>

fun is_subscribe :: "transport_call \<Rightarrow> bool" where
  "is_subscribe (TSubscribe t q a) = True"
| "is_subscribe c = False"

fun is_unsubscribe :: "transport_call \<Rightarrow> bool" where
  "is_unsubscribe (TUnsubscribe t a) = True"
| "is_unsubscribe c = False"

fun is_end :: "transport_call \<Rightarrow> bool" where
  "is_end TEnd = True"
| "is_end c = False"

definition n_subscribes :: "adapter \<Rightarrow> nat" where
  "n_subscribes st = length (filter is_subscribe (transport st))"

definition n_unsubscribes :: "adapter \<Rightarrow> nat" where
  "n_unsubscribes st = length (filter is_unsubscribe (transport st))"

definition n_ends :: "adapter \<Rightarrow> nat" where
  "n_ends st = length (filter is_end (transport st))"

definition ready_count :: "adapter \<Rightarrow> nat" where
  "ready_count st = count_list (emitted st) Ready"

text \<open>The subscriber count of a pattern, and its transitions along a run.\<close>

definition count_of :: "adapter \<Rightarrow> topic \<Rightarrow> nat" where
  "count_of st p = subs_count (subs_counter st) p"

fun on_pattern :: "topic \<Rightarrow> input \<Rightarrow> bool" where
  "on_pattern p (CallSubscribe t cb d) = (t = p)"
| "on_pattern p (CallUnsubscribe t cb d) = (t = p)"
| "on_pattern p i = False"

fun is_unsubscribe_call :: "input \<Rightarrow> bool" where
  "is_unsubscribe_call (CallUnsubscribe t cb d) = True"
| "is_unsubscribe_call i = False"

text \<open>The turns of a run at which the count of \<open>p\<close> goes from 0 to 1.\<close>

fun ups :: "naming \<Rightarrow> topic \<Rightarrow> input list \<Rightarrow> adapter \<Rightarrow> nat" where
  "ups nm p [] st = 0"
| "ups nm p (i # ins) st =
     (if count_of st p = 0 \<and> count_of (step nm i st) p = 1 then 1 else 0)
     + ups nm p ins (step nm i st)"

text \<open>The turns at which it goes from 1 to 0.\<close>

fun downs :: "naming \<Rightarrow> topic \<Rightarrow> input list \<Rightarrow> adapter \<Rightarrow> nat" where
  "downs nm p [] st = 0"
| "downs nm p (i # ins) st =
     (if count_of st p = 1 \<and> count_of (step nm i st) p = 0 then 1 else 0)
     + downs nm p ins (step nm i st)"

text \<open>The \<open>unsubscribe\<close> calls made while the count of \<open>p\<close> is 0.\<close>

fun idle_unsubscribes :: "naming \<Rightarrow> topic \<Rightarrow> input list \<Rightarrow> adapter \<Rightarrow> nat" where
  "idle_unsubscribes nm p [] st = 0"
| "idle_unsubscribes nm p (i # ins) st =
     (if is_unsubscribe_call i \<and> count_of st p = 0 then 1 else 0)
     + idle_unsubscribes nm p ins (step nm i st)"

text \<open>Replays are numbered in the order they start.\<close>

definition replay_ok :: "adapter \<Rightarrow> bool" where
  "replay_ok st = list_all (\<lambda>bt. fst bt < next_replay st) (replaying st)"

text \<open>
  An input that neither starts a replay nor acknowledges a topic of a replay other
  than \<open>b\<close>.
\<close>

fun quiet :: "nat \<Rightarrow> input \<Rightarrow> bool" where
  "quiet b EvConnect = False"
| "quiet b (EvAck (AckReplay b' t)) = (b' = b)"
| "quiet b i = True"

text \<open>
  Counter and engine agree on a pattern: it is in the counter's mapping exactly when
  its count is positive, and the count is the number of its registrations.
\<close>

definition in_sync :: "adapter \<Rightarrow> topic \<Rightarrow> bool" where
  "in_sync st p =
     (subs_ok (subs_counter st)
      \<and> (0 < count_of st p) = subs_present (subs_counter st) p
      \<and> count_of st p = registrations (ascoltatore st) p)"

text \<open>
  The use of the surface under which counter and engine stay in step: \<open>subscribe\<close>
  registers a well-formed pattern with a callback that is not registered for it,
  \<open>unsubscribe\<close> names a callback that is registered for the pattern, and \<open>close\<close>
  is not called on an adapter that is not closed. Publishing, the transport's events,
  acknowledgments and deferred tasks are free.
\<close>

fun ok_use :: "input \<Rightarrow> adapter \<Rightarrow> bool" where
  "ok_use (CallSubscribe t cb d) st =
     (valid_pattern t \<and> (t, cb) \<notin> set (regs (ascoltatore st)))"
| "ok_use (CallUnsubscribe t cb d) st = ((t, cb) \<in> set (regs (ascoltatore st)))"
| "ok_use (CallClose d) st = closed st"
| "ok_use i st = True"

fun conforming :: "naming \<Rightarrow> input list \<Rightarrow> adapter \<Rightarrow> bool" where
  "conforming nm [] st = True"
| "conforming nm (i # ins) st = (ok_use i st \<and> conforming nm ins (step nm i st))"

section \<open>Auxiliary facts\<close>

lemmas surface_defs =
  subscribe_def unsubscribe_def publish_def close_def raiseIfClosed_def on_connect_def
  reconnectTopics_def on_message_def on_error_def on_close_def close_listener_def
  run_deferred_def util_defer_def util_wrap_def emit_def call_def startConn_def
  AWSIoTAscoltatore_def plain_def

lemmas parts_defs =
  subs_count_def subs_include_def subs_add_def subs_remove_def subs_keys_def subs_clear_def
  subs_present_def subs_ok_def engine_new_def engine_subscribe_def engine_unsubscribe_def
  engine_publish_def engine_close_def registrations_def valid_pattern_def

lemmas observe_defs =
  n_subscribes_def n_unsubscribes_def n_ends_def ready_count_def count_of_def replay_ok_def
  in_sync_def

subsection \<open>The counter\<close>

lemma subs_count_add:
  "subs_count (snd (subs_add c p)) q = (if q = p then Suc (subs_count c p) else subs_count c q)"
  by (simp add: subs_add_def subs_count_def AList.update_conv')

lemma subs_count_remove:
  "subs_count (snd (subs_remove c p)) q = (if q = p then subs_count c p - 1 else subs_count c q)"
  by (auto simp: subs_remove_def subs_count_def AList.update_conv' AList.delete_conv'
      split: option.splits)

subsection \<open>The fresh adapter\<close>

lemma fresh_adapter:
  "client AWSIoTAscoltatore" "\<not> closed AWSIoTAscoltatore"
  "transport AWSIoTAscoltatore = [TDevice]" "close_listeners AWSIoTAscoltatore = []"
  "subs_counter AWSIoTAscoltatore = []" "ascoltatore AWSIoTAscoltatore = \<lparr>regs = [], handed = []\<rparr>"
  "deferred AWSIoTAscoltatore = []" "completed AWSIoTAscoltatore = []"
  "emitted AWSIoTAscoltatore = []" "replaying AWSIoTAscoltatore = []"
  by (simp_all add: AWSIoTAscoltatore_def startConn_def call_def subs_clear_def engine_new_def)

subsection \<open>Deferred tasks and close listeners\<close>

lemma run_task_frame [simp]:
  "closed (run_task t st) = closed st" "client (run_task t st) = client st"
  "transport (run_task t st) = transport st" "emitted (run_task t st) = emitted st"
  "subs_counter (run_task t st) = subs_counter st"
  "close_listeners (run_task t st) = close_listeners st"
  "replaying (run_task t st) = replaying st" "next_replay (run_task t st) = next_replay st"
  "regs (ascoltatore (run_task t st)) = regs (ascoltatore st)"
  by (cases t; simp add: engine_publish_def)+

lemma fold_close_listener:
  "fold close_listener ds st =
     st\<lparr>ascoltatore := (if ds = [] then ascoltatore st else engine_close (ascoltatore st)),
        client := client st \<and> ds = [],
        emitted := emitted st @ map (\<lambda>d. Closed) ds,
        closed := closed st \<or> ds \<noteq> [],
        deferred := deferred st @ map InvokeDone ds\<rparr>"
proof (induction ds arbitrary: st)
  case Nil
  show ?case by simp
next
  case (Cons d ds)
  let ?s = "close_listener d st"
  have "fold close_listener (d # ds) st = fold close_listener ds ?s"
    by simp
  also have "\<dots> =
     ?s\<lparr>ascoltatore := (if ds = [] then ascoltatore ?s else engine_close (ascoltatore ?s)),
        client := client ?s \<and> ds = [],
        emitted := emitted ?s @ map (\<lambda>d. Closed) ds,
        closed := closed ?s \<or> ds \<noteq> [],
        deferred := deferred ?s @ map InvokeDone ds\<rparr>"
    by (rule Cons.IH)
  also have "\<dots> =
     st\<lparr>ascoltatore := (if d # ds = [] then ascoltatore st else engine_close (ascoltatore st)),
        client := client st \<and> d # ds = [],
        emitted := emitted st @ map (\<lambda>d. Closed) (d # ds),
        closed := closed st \<or> d # ds \<noteq> [],
        deferred := deferred st @ map InvokeDone (d # ds)\<rparr>"
    by (simp add: close_listener_def util_defer_def emit_def engine_close_def)
  finally show ?case .
qed

lemma on_close_eq:
  "on_close st =
     st\<lparr>close_listeners := [],
        ascoltatore := (if close_listeners st = [] then ascoltatore st
                        else engine_close (ascoltatore st)),
        client := client st \<and> close_listeners st = [],
        emitted := emitted st @ map (\<lambda>d. Closed) (close_listeners st),
        closed := closed st \<or> close_listeners st \<noteq> [],
        deferred := deferred st @ map InvokeDone (close_listeners st)\<rparr>"
  by (simp add: on_close_def fold_close_listener)

subsection \<open>What no turn undoes\<close>

lemma closed_step: "closed st \<Longrightarrow> closed (step nm i st)"
proof (cases i)
  case (EvAck a)
  assume "closed st"
  then show ?thesis using EvAck
    by (cases a) (auto simp: util_defer_def util_wrap_def emit_def split: option.splits)
next
  case RunDeferred
  assume "closed st"
  then show ?thesis using RunDeferred
    by (auto simp: run_deferred_def split: list.splits)
qed (auto simp: subscribe_def unsubscribe_def publish_def close_def raiseIfClosed_def
      on_connect_def reconnectTopics_def on_message_def on_error_def on_close_eq emit_def
      util_defer_def util_wrap_def Let_def)

lemma closed_run: "closed st \<Longrightarrow> closed (run nm ins st)"
  by (induction ins arbitrary: st) (auto simp: closed_step)

lemma no_client_step: "\<not> client st \<Longrightarrow> \<not> client (step nm i st)"
proof (cases i)
  case (EvAck a)
  assume "\<not> client st"
  then show ?thesis using EvAck
    by (cases a) (auto simp: util_defer_def util_wrap_def emit_def split: option.splits)
next
  case RunDeferred
  assume "\<not> client st"
  then show ?thesis using RunDeferred
    by (auto simp: run_deferred_def split: list.splits)
qed (auto simp: subscribe_def unsubscribe_def publish_def close_def raiseIfClosed_def
      on_connect_def reconnectTopics_def on_message_def on_error_def on_close_eq emit_def
      util_defer_def util_wrap_def Let_def call_def split: sum.splits)

lemma no_client_run: "\<not> client st \<Longrightarrow> \<not> client (run nm ins st)"
  by (induction ins arbitrary: st) (auto simp: no_client_step)

lemma ends_step: "closed st \<Longrightarrow> n_ends (step nm i st) = n_ends st"
proof (cases i)
  case (EvAck a)
  then show ?thesis
    by (cases a) (auto simp: n_ends_def util_defer_def util_wrap_def emit_def split: option.splits)
next
  case RunDeferred
  then show ?thesis
    by (auto simp: n_ends_def run_deferred_def split: list.splits)
next
  case EvConnect
  then show ?thesis
    by (auto simp: n_ends_def on_connect_def reconnectTopics_def Let_def emit_def filter_map
        comp_def)
qed (auto simp: n_ends_def subscribe_def unsubscribe_def publish_def close_def raiseIfClosed_def
      on_message_def on_error_def on_close_eq emit_def util_defer_def util_wrap_def Let_def
      call_def)

lemma ends_run: "closed st \<Longrightarrow> n_ends (run nm ins st) = n_ends st"
  by (induction ins arbitrary: st) (auto simp: ends_step closed_step)

subsection \<open>Subscribing and unsubscribing on an open adapter\<close>

lemma subscribe_open:
  assumes "client st" and "\<not> closed st"
  shows "client (snd (subscribe nm p cb d st))"
    and "\<not> closed (snd (subscribe nm p cb d st))"
    and "count_of (snd (subscribe nm p cb d st)) q =
           (if q = p then Suc (count_of st p) else count_of st q)"
    and "transport (snd (subscribe nm p cb d st)) = transport st @
           (if subs_include (subs_counter st) p then []
            else [TSubscribe (subTopic nm p) 1 (AckSubscribe d)])"
  using assms
  by (auto simp: subscribe_def raiseIfClosed_def Let_def call_def util_defer_def count_of_def
      subs_count_add engine_subscribe_def split: sum.splits)

lemma unsubscribe_open:
  assumes "client st" and "\<not> closed st"
  shows "client (snd (unsubscribe nm p cb d st))"
    and "\<not> closed (snd (unsubscribe nm p cb d st))"
    and "count_of (snd (unsubscribe nm p cb d st)) q =
           (if q = p then count_of st p - 1 else count_of st q)"
    and "transport (snd (unsubscribe nm p cb d st)) = transport st @
           (if 1 < count_of st p then []
            else [TUnsubscribe (subTopic nm p) (AckUnsubscribe d)])"
  using assms
  by (auto simp: unsubscribe_def raiseIfClosed_def Let_def call_def util_defer_def count_of_def
      subs_count_remove subs_include_def engine_unsubscribe_def)

subsection \<open>The closed adapter, and completion callbacks\<close>

lemma closed_raises:
  assumes "closed st"
  shows "subscribe nm t cb d st = (Raised ClosedError, st)"
    and "unsubscribe nm t cb d st = (Raised ClosedError, st)"
    and "publish nm t m options d st = (Raised ClosedError, st)"
    and "close d st = (Returned, st\<lparr>completed := completed st @ [d]\<rparr>)"
  using assms
  by (simp_all add: subscribe_def unsubscribe_def publish_def close_def raiseIfClosed_def
      util_wrap_def util_defer_def)

lemma close_open:
  assumes "client st" and "\<not> closed st"
  shows "close d st = (Returned, st\<lparr>subs_counter := [], close_listeners := close_listeners st @ [d],
                                     transport := transport st @ [TEnd]\<rparr>)"
  using assms by (simp add: close_def Let_def call_def subs_clear_def)

lemma publish_frame:
  "completed (snd (publish nm t m options d st)) = completed st"
  "deferred (snd (publish nm t m options d st)) = deferred st"
  "close_listeners (snd (publish nm t m options d st)) = close_listeners st"
  by (simp_all add: publish_def raiseIfClosed_def call_def)

text \<open>
  Closing in sequence: \<open>close\<close> on an open adapter with its handle, the transport's
  close event, any turns, and \<open>close\<close> again, which finds the adapter closed.
\<close>

lemma close_after_close_event:
  assumes "client st" and "\<not> closed st"
  shows "fst (close d1 st) = Returned
       \<and> n_ends (snd (close d1 st)) = Suc (n_ends st)
       \<and> closed (on_close (snd (close d1 st)))
       \<and> InvokeDone d1 \<in> set (deferred (on_close (snd (close d1 st))))
       \<and> (let s = run nm ins (on_close (snd (close d1 st))) in
            close d2 s = (Returned, s\<lparr>completed := completed s @ [d2]\<rparr>)
            \<and> n_ends (snd (close d2 s)) = Suc (n_ends st))"
proof -
  let ?s1 = "snd (close d1 st)"
  let ?s = "run nm ins (on_close ?s1)"
  note c = close_open [OF assms, of d1]
  have e1: "n_ends ?s1 = Suc (n_ends st)"
    by (simp add: c n_ends_def)
  have cl: "closed (on_close ?s1)"
    by (simp add: c on_close_eq)
  have e2: "n_ends (on_close ?s1) = Suc (n_ends st)"
    using e1 by (simp add: on_close_eq n_ends_def)
  have cls: "closed ?s"
    using cl by (rule closed_run)
  have e3: "n_ends ?s = Suc (n_ends st)"
    using ends_run [OF cl, of nm ins] e2 by simp
  have "n_ends (snd (close d2 ?s)) = n_ends ?s"
    by (simp add: closed_raises(4) [OF cls] n_ends_def)
  with e3 closed_raises(4) [OF cls, of d2] e1 cl c show ?thesis
    by (simp add: on_close_eq Let_def)
qed

subsection \<open>Counter and engine in step\<close>

lemma snd_update_subset: "set (map snd (AList.update k v al)) \<subseteq> insert v (set (map snd al))"
  by (induction al) auto

lemma snd_delete_subset: "set (map snd (AList.delete k al)) \<subseteq> set (map snd al)"
  by (induction al) auto

lemma subs_ok_add: "subs_ok c \<Longrightarrow> subs_ok (snd (subs_add c p))"
  using snd_update_subset [of p "Suc (subs_count c p)" c]
  by (auto simp: subs_ok_def subs_add_def AList.distinct_update)

lemma subs_ok_remove: "subs_ok c \<Longrightarrow> subs_ok (snd (subs_remove c p))"
  using snd_update_subset [of p "subs_count c p - 1" c] snd_delete_subset [of p c]
  by (auto simp: subs_ok_def subs_remove_def AList.distinct_update AList.distinct_delete)

lemma subs_ok_present: "subs_ok c \<Longrightarrow> (0 < subs_count c p) = subs_present c p"
proof -
  assume ok: "subs_ok c"
  show ?thesis
  proof (cases "map_of c p")
    case None
    then have "p \<notin> fst ` set c"
      by (simp add: map_of_eq_None_iff)
    with None show ?thesis
      by (simp add: subs_count_def subs_present_def)
  next
    case (Some n)
    then have "(p, n) \<in> set c" by (rule map_of_SomeD)
    then have n: "n \<in> set (map snd c)" and p: "p \<in> set (map fst c)" by force+
    have "n \<noteq> 0"
    proof
      assume "n = 0"
      with n ok show False by (simp add: subs_ok_def)
    qed
    with p Some show ?thesis
      by (simp add: subs_count_def subs_present_def)
  qed
qed

lemma filter_pos: "x \<in> set xs \<Longrightarrow> P x \<Longrightarrow> 0 < length (filter P xs)"
  by (induction xs) auto

lemma filter_remove1_length:
  "x \<in> set xs \<Longrightarrow> length (filter P (remove1 x xs)) = length (filter P xs) - (if P x then 1 else 0)"
proof (induction xs)
  case Nil
  then show ?case by simp
next
  case (Cons a xs)
  show ?case
  proof (cases "x = a")
    case True
    then show ?thesis by simp
  next
    case False
    with Cons.prems have m: "x \<in> set xs" by simp
    from Cons.IH [OF m] filter_pos [OF m, of P] False show ?thesis
      by (cases "P x") auto
  qed
qed

lemma registrations_unsubscribe:
  "(t, cb) \<in> set (regs e) \<Longrightarrow>
     registrations (engine_unsubscribe t cb e) p = registrations e p - (if t = p then 1 else 0)"
  by (simp add: registrations_def engine_unsubscribe_def filter_remove1_length)

lemma registrations_other:
  "t \<noteq> p \<Longrightarrow> registrations (engine_unsubscribe t cb e) p = registrations e p"
proof (cases "(t, cb) \<in> set (regs e)")
  case True
  assume "t \<noteq> p"
  with True show ?thesis by (simp add: registrations_unsubscribe)
next
  case False
  then show ?thesis by (simp add: registrations_def engine_unsubscribe_def remove1_idem)
qed

lemma in_sync_frame:
  "in_sync s p \<Longrightarrow> subs_counter s' = subs_counter s \<Longrightarrow>
     regs (ascoltatore s') = regs (ascoltatore s) \<Longrightarrow> in_sync s' p"
  unfolding in_sync_def count_of_def registrations_def by (elim conjE) simp

lemma subscribe_effect:
  assumes "valid_pattern t" and "(t, cb) \<notin> set (regs (ascoltatore st))"
  shows "snd (subscribe nm t cb d st) = st
       \<or> (subs_counter (snd (subscribe nm t cb d st)) = snd (subs_add (subs_counter st) t)
          \<and> regs (ascoltatore (snd (subscribe nm t cb d st))) = regs (ascoltatore st) @ [(t, cb)])"
  using assms
  by (simp add: subscribe_def raiseIfClosed_def Let_def call_def util_defer_def
      engine_subscribe_def)

lemma unsubscribe_effect:
  "snd (unsubscribe nm t cb d st) = st
   \<or> (subs_counter (snd (unsubscribe nm t cb d st)) = snd (subs_remove (subs_counter st) t)
      \<and> regs (ascoltatore (snd (unsubscribe nm t cb d st))) = remove1 (t, cb) (regs (ascoltatore st)))"
  by (simp add: unsubscribe_def raiseIfClosed_def Let_def call_def util_defer_def
      engine_unsubscribe_def)

lemma subscribe_sync:
  assumes "in_sync st p" and "valid_pattern t" and "(t, cb) \<notin> set (regs (ascoltatore st))"
  shows "in_sync (snd (subscribe nm t cb d st)) p"
proof -
  let ?s = "snd (subscribe nm t cb d st)"
  from assms(1) have ok: "subs_ok (subs_counter st)"
    and eq: "subs_count (subs_counter st) p = registrations (ascoltatore st) p"
    by (simp_all add: in_sync_def count_of_def)
  have ok': "subs_ok (snd (subs_add (subs_counter st) t))"
    using ok by (rule subs_ok_add)
  from subscribe_effect [OF assms(2,3), of nm d] show ?thesis
  proof
    assume "?s = st"
    with assms(1) show ?thesis by simp
  next
    assume e: "subs_counter ?s = snd (subs_add (subs_counter st) t)
                 \<and> regs (ascoltatore ?s) = regs (ascoltatore st) @ [(t, cb)]"
    have "registrations (ascoltatore ?s) p = subs_count (subs_counter ?s) p"
      using e eq by (auto simp: registrations_def subs_count_add)
    with e ok' subs_ok_present [OF ok', of p] show ?thesis
      by (simp add: in_sync_def count_of_def)
  qed
qed

lemma unsubscribe_sync:
  assumes "in_sync st p" and "t = p \<longrightarrow> (t, cb) \<in> set (regs (ascoltatore st))"
  shows "in_sync (snd (unsubscribe nm t cb d st)) p"
proof -
  let ?s = "snd (unsubscribe nm t cb d st)"
  from assms(1) have ok: "subs_ok (subs_counter st)"
    and eq: "subs_count (subs_counter st) p = registrations (ascoltatore st) p"
    by (simp_all add: in_sync_def count_of_def)
  have ok': "subs_ok (snd (subs_remove (subs_counter st) t))"
    using ok by (rule subs_ok_remove)
  have r: "registrations (engine_unsubscribe t cb (ascoltatore st)) p
            = subs_count (snd (subs_remove (subs_counter st) t)) p"
  proof (cases "t = p")
    case True
    with assms(2) eq show ?thesis
      by (simp add: registrations_unsubscribe subs_count_remove)
  next
    case False
    with eq show ?thesis
      by (simp add: registrations_other subs_count_remove)
  qed
  from unsubscribe_effect [of nm t cb d st] show ?thesis
  proof
    assume "?s = st"
    with assms(1) show ?thesis by simp
  next
    assume e: "subs_counter ?s = snd (subs_remove (subs_counter st) t)
                 \<and> regs (ascoltatore ?s) = remove1 (t, cb) (regs (ascoltatore st))"
    have "registrations (ascoltatore ?s) p = subs_count (subs_counter ?s) p"
      using e r by (simp add: registrations_def engine_unsubscribe_def)
    with e ok' subs_ok_present [OF ok', of p] show ?thesis
      by (simp add: in_sync_def count_of_def)
  qed
qed

lemma subs_ok_step: "subs_ok (subs_counter st) \<Longrightarrow> subs_ok (subs_counter (step nm i st))"
proof (cases i)
  case (CallSubscribe t cb d)
  assume ok: "subs_ok (subs_counter st)"
  have "subs_counter (snd (subscribe nm t cb d st)) = subs_counter st
      \<or> subs_counter (snd (subscribe nm t cb d st)) = snd (subs_add (subs_counter st) t)"
    by (simp add: subscribe_def raiseIfClosed_def Let_def call_def util_defer_def
        split: sum.splits)
  with ok subs_ok_add [OF ok, of t] CallSubscribe show ?thesis
    by auto
next
  case (CallUnsubscribe t cb d)
  assume ok: "subs_ok (subs_counter st)"
  from unsubscribe_effect [of nm t cb d st] ok subs_ok_remove [OF ok, of t] CallUnsubscribe
  show ?thesis by auto
next
  case (EvAck a)
  assume "subs_ok (subs_counter st)"
  then show ?thesis using EvAck
    by (cases a) (auto simp: util_defer_def util_wrap_def emit_def split: option.splits)
next
  case RunDeferred
  assume "subs_ok (subs_counter st)"
  then show ?thesis using RunDeferred
    by (auto simp: run_deferred_def split: list.splits)
qed (auto simp: publish_def close_def raiseIfClosed_def on_connect_def reconnectTopics_def
      on_message_def on_error_def on_close_eq emit_def util_defer_def util_wrap_def Let_def
      call_def subs_clear_def subs_ok_def)

lemma subs_ok_run: "subs_ok (subs_counter st) \<Longrightarrow> subs_ok (subs_counter (run nm ins st))"
  by (induction ins arbitrary: st) (auto simp: subs_ok_step)

lemma fresh_in_sync: "in_sync AWSIoTAscoltatore p"
  by (simp add: in_sync_def count_of_def fresh_adapter subs_ok_def subs_count_def
      subs_present_def registrations_def)

lemma listeners_step:
  assumes "close_listeners st = []" and "ok_use i st"
  shows "close_listeners (step nm i st) = []"
proof (cases i)
  case (EvAck a)
  with assms show ?thesis
    by (cases a) (auto simp: util_defer_def util_wrap_def emit_def split: option.splits)
next
  case RunDeferred
  with assms show ?thesis
    by (auto simp: run_deferred_def split: list.splits)
next
  case (CallClose d)
  with assms have "closed st" by simp
  with assms(1) CallClose show ?thesis
    by (simp add: closed_raises)
qed (use assms in \<open>auto simp: subscribe_def unsubscribe_def publish_def raiseIfClosed_def
      on_connect_def reconnectTopics_def on_message_def on_error_def on_close_eq emit_def
      util_defer_def Let_def call_def split: sum.splits\<close>)

lemma sync_step:
  assumes "in_sync st p" and "close_listeners st = []" and "ok_use i st"
  shows "in_sync (step nm i st) p"
proof (cases i)
  case (CallSubscribe t cb d)
  with assms(3) subscribe_sync [OF assms(1), of t cb nm d] show ?thesis
    by simp
next
  case (CallUnsubscribe t cb d)
  with assms(3) have "(t, cb) \<in> set (regs (ascoltatore st))"
    by simp
  then have "t = p \<longrightarrow> (t, cb) \<in> set (regs (ascoltatore st))"
    by (rule impI)
  from unsubscribe_sync [OF assms(1) this, of nm d] CallUnsubscribe show ?thesis
    by simp
next
  case (CallPublish t m options d)
  have "in_sync (snd (publish nm t m options d st)) p"
    by (rule in_sync_frame [OF assms(1)]) (simp_all add: publish_def raiseIfClosed_def call_def)
  with CallPublish show ?thesis by simp
next
  case (CallClose d)
  with assms(3) have c: "closed st" by simp
  have "in_sync (snd (close d st)) p"
    by (rule in_sync_frame [OF assms(1)]) (simp_all add: closed_raises [OF c])
  with CallClose show ?thesis by simp
next
  case EvConnect
  have "in_sync (snd (on_connect nm st)) p"
    by (rule in_sync_frame [OF assms(1)])
      (simp_all add: on_connect_def reconnectTopics_def Let_def emit_def)
  with EvConnect show ?thesis by simp
next
  case (EvMessage t m k)
  have "in_sync (on_message nm t m k st) p"
    by (rule in_sync_frame [OF assms(1)]) (simp_all add: on_message_def util_defer_def)
  with EvMessage show ?thesis by simp
next
  case (EvError e)
  have "in_sync (on_error e st) p"
    by (rule in_sync_frame [OF assms(1)]) (simp_all add: on_error_def emit_def)
  with EvError show ?thesis by simp
next
  case EvClose
  have "in_sync (on_close st) p"
    by (rule in_sync_frame [OF assms(1)]) (simp_all add: on_close_eq assms(2))
  with EvClose show ?thesis by simp
next
  case (EvAck a)
  have "in_sync (on_ack a st) p"
    by (rule in_sync_frame [OF assms(1)]; cases a)
      (simp_all add: util_defer_def util_wrap_def emit_def split: option.splits)
  with EvAck show ?thesis by simp
next
  case RunDeferred
  have "in_sync (run_deferred st) p"
    by (rule in_sync_frame [OF assms(1)]) (simp_all add: run_deferred_def split: list.splits)
  with RunDeferred show ?thesis by simp
qed

subsection \<open>Replays in progress\<close>

lemma count_closed_ready: "count_list (map (\<lambda>d. Closed) ds) Ready = 0"
  by (induction ds) auto

lemma fresh_replay:
  assumes "replay_ok st"
  shows "map_of (replaying st @ [(next_replay st, ks)]) (next_replay st) = Some ks"
proof -
  have "next_replay st \<notin> fst ` set (replaying st)"
    using assms by (auto simp: replay_ok_def list_all_iff)
  then have "map_of (replaying st) (next_replay st) = None"
    by (simp add: map_of_eq_None_iff)
  then show ?thesis
    by (simp add: map_add_def)
qed

lemma pending_step:
  assumes "map_of (replaying s) b = Some ts" and "k \<in> set ts"
    and "quiet b i" and "i \<noteq> EvAck (AckReplay b k)"
  shows "(\<exists>ts'. map_of (replaying (step nm i s)) b = Some ts' \<and> k \<in> set ts')
       \<and> ready_count (step nm i s) = ready_count s"
proof (cases i)
  case (EvAck a)
  show ?thesis
  proof (cases a)
    case (AckReplay b' t)
    with assms(3,4) EvAck have b: "b' = b" and t: "t \<noteq> k" by auto
    show ?thesis
    proof (cases "t \<in> set ts")
      case False
      with assms(1,2) EvAck AckReplay b show ?thesis by simp
    next
      case True
      from t assms(2) have k: "k \<in> set (remove1 t ts)" by simp
      then have "remove1 t ts \<noteq> []" by auto
      with assms(1) True k EvAck AckReplay b show ?thesis
        by (simp add: AList.update_conv' ready_count_def)
    qed
  qed (use assms EvAck in \<open>auto simp: util_defer_def util_wrap_def ready_count_def\<close>)
next
  case RunDeferred
  with assms show ?thesis
    by (auto simp: run_deferred_def ready_count_def split: list.splits)
next
  case EvConnect
  with assms(3) show ?thesis by simp
next
  case EvClose
  with assms show ?thesis
    by (simp add: on_close_eq ready_count_def count_closed_ready)
qed (use assms in \<open>auto simp: subscribe_def unsubscribe_def publish_def close_def
      raiseIfClosed_def on_message_def on_error_def emit_def util_defer_def util_wrap_def
      Let_def call_def ready_count_def split: sum.splits\<close>)

lemma pending_run:
  assumes "map_of (replaying s) b = Some ts" and "k \<in> set ts"
    and "list_all (quiet b) ins" and "EvAck (AckReplay b k) \<notin> set ins"
  shows "ready_count (run nm ins s) = ready_count s"
  using assms
proof (induction ins arbitrary: s ts)
  case Nil
  show ?case by simp
next
  case (Cons i ins)
  from Cons.prems(3,4) have q: "quiet b i" and n: "i \<noteq> EvAck (AckReplay b k)"
    and qs: "list_all (quiet b) ins" and ns: "EvAck (AckReplay b k) \<notin> set ins"
    by auto
  from pending_step [OF Cons.prems(1,2) q n, of nm]
  obtain ts' where m: "map_of (replaying (step nm i s)) b = Some ts'" and k: "k \<in> set ts'"
    and r: "ready_count (step nm i s) = ready_count s"
    by blast
  from Cons.IH [OF m k qs ns] r show ?case
    by simp
qed

lemma acks_complete:
  assumes "map_of (replaying s) b = Some ts" and "ts \<noteq> []"
  shows "emitted (run nm (map (\<lambda>t. EvAck (AckReplay b t)) ts) s) = emitted s @ [Ready]"
  using assms
proof (induction ts arbitrary: s)
  case Nil
  then show ?case by simp
next
  case (Cons t ts)
  show ?case
  proof (cases "ts = []")
    case True
    with Cons.prems(1) show ?thesis
      by (simp add: emit_def)
  next
    case False
    let ?s = "on_ack (AckReplay b t) s"
    from Cons.prems(1) False
    have m: "map_of (replaying ?s) b = Some ts" and e: "emitted ?s = emitted s"
      by (simp_all add: AList.update_conv')
    from Cons.IH [OF m False] e show ?thesis
      by simp
  qed
qed

lemma replay_ok_step: "replay_ok st \<Longrightarrow> replay_ok (step nm i st)"
proof (cases i)
  case (EvAck a)
  assume ok: "replay_ok st"
  show ?thesis
  proof (cases a)
    case (AckReplay b t)
    show ?thesis
    proof (cases "map_of (replaying st) b")
      case None
      with ok EvAck AckReplay show ?thesis by simp
    next
      case (Some ts)
      then have "(b, ts) \<in> set (replaying st)" by (rule map_of_SomeD)
      with ok have lt: "b < next_replay st"
        by (auto simp: replay_ok_def list_all_iff)
      have d: "fst ` set (AList.delete b (replaying st)) \<subseteq> fst ` set (replaying st)"
        by (rule AList.dom_delete_subset)
      have u: "fst ` set (AList.update b (remove1 t ts) (replaying st))
                 = {b} \<union> fst ` set (replaying st)"
        by (rule AList.dom_update)
      from ok have all: "\<forall>x \<in> fst ` set (replaying st). x < next_replay st"
        by (auto simp: replay_ok_def list_all_iff)
      from all d have "\<forall>x \<in> fst ` set (AList.delete b (replaying st)). x < next_replay st"
        by blast
      moreover from all u lt
      have "\<forall>x \<in> fst ` set (AList.update b (remove1 t ts) (replaying st)). x < next_replay st"
        by simp
      ultimately show ?thesis
        using ok Some EvAck AckReplay
        by (simp add: replay_ok_def list_all_iff emit_def)
    qed
  qed (use ok EvAck in \<open>simp_all add: replay_ok_def util_defer_def util_wrap_def\<close>)
next
  case RunDeferred
  assume "replay_ok st"
  then show ?thesis using RunDeferred
    by (auto simp: replay_ok_def run_deferred_def split: list.splits)
next
  case EvConnect
  assume "replay_ok st"
  then show ?thesis using EvConnect
    by (auto simp: replay_ok_def on_connect_def reconnectTopics_def Let_def emit_def list_all_iff)
qed (auto simp: replay_ok_def subscribe_def unsubscribe_def publish_def close_def
      raiseIfClosed_def on_message_def on_error_def on_close_eq emit_def util_defer_def
      util_wrap_def Let_def call_def split: sum.splits)

lemma replay_ok_run: "replay_ok st \<Longrightarrow> replay_ok (run nm ins st)"
  by (induction ins arbitrary: st) (auto simp: replay_ok_step)

lemma waiting_step:
  assumes "map_of (replaying s) b = Some ts" and "k \<in> set ts"
    and "i \<noteq> EvAck (AckReplay b k)"
  shows "\<exists>ts'. map_of (replaying (step nm i s)) b = Some ts' \<and> k \<in> set ts'"
proof (cases i)
  case (EvAck a)
  show ?thesis
  proof (cases a)
    case (AckReplay b' t)
    show ?thesis
    proof (cases "b' = b")
      case True
      with assms(3) EvAck AckReplay have t: "t \<noteq> k" by auto
      show ?thesis
      proof (cases "t \<in> set ts")
        case False
        with assms(1,2) EvAck AckReplay True show ?thesis by simp
      next
        case in_ts: True
        from t assms(2) have k: "k \<in> set (remove1 t ts)" by simp
        then have "remove1 t ts \<noteq> []" by auto
        with assms(1) in_ts k EvAck AckReplay True show ?thesis
          by (simp add: AList.update_conv')
      qed
    next
      case False
      with assms(1,2) EvAck AckReplay show ?thesis
        by (auto simp: AList.update_conv' AList.delete_conv' emit_def split: option.splits)
    qed
  qed (use assms EvAck in \<open>auto simp: util_defer_def util_wrap_def\<close>)
next
  case RunDeferred
  with assms show ?thesis
    by (auto simp: run_deferred_def split: list.splits)
next
  case EvConnect
  with assms show ?thesis
    by (auto simp: on_connect_def reconnectTopics_def Let_def emit_def map_add_def)
next
  case EvClose
  with assms show ?thesis
    by (simp add: on_close_eq)
qed (use assms in \<open>auto simp: subscribe_def unsubscribe_def publish_def close_def
      raiseIfClosed_def on_message_def on_error_def emit_def util_defer_def util_wrap_def
      Let_def call_def split: sum.splits\<close>)

lemma waiting_run:
  assumes "map_of (replaying s) b = Some ts" and "k \<in> set ts"
    and "EvAck (AckReplay b k) \<notin> set ins"
  shows "\<exists>ts'. map_of (replaying (run nm ins s)) b = Some ts' \<and> k \<in> set ts'"
  using assms
proof (induction ins arbitrary: s ts)
  case Nil
  then show ?case by simp
next
  case (Cons i ins)
  from Cons.prems(3) have n: "i \<noteq> EvAck (AckReplay b k)"
    and ns: "EvAck (AckReplay b k) \<notin> set ins"
    by auto
  from waiting_step [OF Cons.prems(1,2) n, of nm]
  obtain ts' where m: "map_of (replaying (step nm i s)) b = Some ts'" and k: "k \<in> set ts'"
    by blast
  from Cons.IH [OF m k ns] show ?case
    by simp
qed

text \<open>
  The replay on an adapter that holds its handle: a broker-level subscribe with qos 1
  for exactly the snapshot; with an empty snapshot \<open>ready\<close> at once; otherwise the
  replay stays in progress as long as one acknowledgment is outstanding, no turn emits
  \<open>ready\<close> meanwhile (unless another replay is started or acknowledged), and the
  last acknowledgment emits it.
\<close>

lemma replay_with_handle:
  assumes "client st" and "replay_ok st"
  shows "let ks = subs_keys (subs_counter st); b = next_replay st; s = snd (on_connect nm st) in
           fst (on_connect nm st) = Returned
         \<and> transport s = transport st @ map (\<lambda>t. TSubscribe (subTopic nm t) 1 (AckReplay b t)) ks
         \<and> (ks = [] \<longrightarrow> emitted s = emitted st @ [Ready])
         \<and> (ks \<noteq> [] \<longrightarrow> emitted s = emitted st \<and> map_of (replaying s) b = Some ks)
         \<and> (k \<in> set ks \<and> EvAck (AckReplay b k) \<notin> set ins' \<longrightarrow>
              (\<exists>ts. map_of (replaying (run nm ins' s)) b = Some ts \<and> k \<in> set ts))
         \<and> (list_all (quiet b) ins \<and> k \<in> set ks \<and> EvAck (AckReplay b k) \<notin> set ins \<longrightarrow>
              ready_count (run nm ins s) = ready_count st)
         \<and> (ks \<noteq> [] \<longrightarrow>
              emitted (run nm (map (\<lambda>t. EvAck (AckReplay b t)) ks) s) = emitted st @ [Ready])"
proof (cases "subs_keys (subs_counter st) = []")
  case True
  with assms(1) show ?thesis
    by (simp add: on_connect_def reconnectTopics_def Let_def emit_def)
next
  case False
  let ?ks = "subs_keys (subs_counter st)"
  let ?b = "next_replay st"
  let ?s = "snd (on_connect nm st)"
  have s: "on_connect nm st = (Returned,
            st\<lparr>transport := transport st @ map (\<lambda>t. TSubscribe (subTopic nm t) 1 (AckReplay ?b t)) ?ks,
               replaying := replaying st @ [(?b, ?ks)], next_replay := Suc ?b\<rparr>)"
    using False assms(1) by (simp add: on_connect_def reconnectTopics_def Let_def)
  have m: "map_of (replaying ?s) ?b = Some ?ks"
    using fresh_replay [OF assms(2), of ?ks] by (simp add: s)
  have e: "emitted ?s = emitted st"
    by (simp add: s)
  have wait: "\<exists>ts. map_of (replaying (run nm ins' ?s)) ?b = Some ts \<and> k \<in> set ts"
    if "k \<in> set ?ks" and "EvAck (AckReplay ?b k) \<notin> set ins'"
    using waiting_run [OF m that] .
  have safe: "ready_count (run nm ins ?s) = ready_count st"
    if "list_all (quiet ?b) ins" and "k \<in> set ?ks" and "EvAck (AckReplay ?b k) \<notin> set ins"
    using pending_run [OF m that(2,1,3), of nm] e by (simp add: ready_count_def)
  have live: "emitted (run nm (map (\<lambda>t. EvAck (AckReplay ?b t)) ?ks) ?s) = emitted st @ [Ready]"
    using acks_complete [OF m False, of nm] e by simp
  from False safe live e m wait show ?thesis
    unfolding Let_def by (intro conjI impI) (simp_all add: s)
qed

subsection \<open>The adapter without a handle\<close>

lemma dead_step:
  assumes "\<not> client st" and "\<not> closed st" and "close_listeners st = []"
  shows "\<not> closed (step nm i st) \<and> close_listeners (step nm i st) = []"
proof (cases i)
  case (EvAck a)
  with assms show ?thesis
    by (cases a) (auto simp: util_defer_def util_wrap_def emit_def split: option.splits)
next
  case RunDeferred
  with assms show ?thesis
    by (auto simp: run_deferred_def split: list.splits)
qed (use assms in \<open>auto simp: subscribe_def unsubscribe_def publish_def close_def
      raiseIfClosed_def on_connect_def reconnectTopics_def on_message_def on_error_def
      on_close_eq emit_def util_defer_def util_wrap_def Let_def call_def split: sum.splits\<close>)

lemma dead_run:
  "\<not> client st \<Longrightarrow> \<not> closed st \<Longrightarrow> close_listeners st = [] \<Longrightarrow>
     \<not> client (run nm ins st) \<and> \<not> closed (run nm ins st) \<and> close_listeners (run nm ins st) = []"
  by (induction ins arbitrary: st) (auto simp: dead_step no_client_step)

section \<open>Properties\<close>

subsection \<open>Deduplication of broker-level subscriptions\<close>

text \<open>
  C1, as amended. On an open adapter that holds its transport handle, along every
  sequence of \<open>subscribe\<close> and \<open>unsubscribe\<close> calls on one pattern, by any number of
  subscribers: the broker-level subscribe calls are as many as the transitions of the
  pattern's count from 0 to 1; the broker-level unsubscribe calls are as many as the
  transitions from 1 to 0 plus the \<open>unsubscribe\<close> calls made while the count is
  already 0 (each of these issues a broker-level unsubscribe too). In \<open>subscribe\<close> the
  broker call is decided by \<open>include\<close> on the counter as it is before the increment,
  after which the pattern is included.
\<close>

theorem broker_calls_per_transition:
  assumes "client st" and "\<not> closed st" and "list_all (on_pattern p) ins"
  shows "n_subscribes (run nm ins st) = n_subscribes st + ups nm p ins st
       \<and> n_unsubscribes (run nm ins st) =
           n_unsubscribes st + downs nm p ins st + idle_unsubscribes nm p ins st
       \<and> transport (snd (subscribe nm p cb d st)) = transport st @
           (if subs_include (subs_counter st) p then []
            else [TSubscribe (subTopic nm p) 1 (AckSubscribe d)])
       \<and> subs_include (subs_counter (snd (subscribe nm p cb d st))) p"
proof -
  have counts: "n_subscribes (run nm ins st) = n_subscribes st + ups nm p ins st
       \<and> n_unsubscribes (run nm ins st) =
           n_unsubscribes st + downs nm p ins st + idle_unsubscribes nm p ins st"
    using assms
  proof (induction ins arbitrary: st)
    case Nil
    then show ?case by simp
  next
    case (Cons i ins)
    from Cons.prems(3) have i: "on_pattern p i" and rest: "list_all (on_pattern p) ins"
      by simp_all
    let ?s = "step nm i st"
    show ?case
    proof (cases i)
      case (CallSubscribe t cb' d')
      with i have [simp]: "t = p" by simp
      note s = subscribe_open [OF Cons.prems(1,2), of nm p cb' d']
      have ih: "n_subscribes (run nm ins ?s) = n_subscribes ?s + ups nm p ins ?s
         \<and> n_unsubscribes (run nm ins ?s) =
             n_unsubscribes ?s + downs nm p ins ?s + idle_unsubscribes nm p ins ?s"
        using Cons.IH [OF _ _ rest, of ?s] s(1,2) CallSubscribe by simp
      show ?thesis
        using ih s(3) [of p] s(4) CallSubscribe
        by (auto simp: n_subscribes_def n_unsubscribes_def subs_include_def count_of_def)
    next
      case (CallUnsubscribe t cb' d')
      with i have [simp]: "t = p" by simp
      note s = unsubscribe_open [OF Cons.prems(1,2), of nm p cb' d']
      have ih: "n_subscribes (run nm ins ?s) = n_subscribes ?s + ups nm p ins ?s
         \<and> n_unsubscribes (run nm ins ?s) =
             n_unsubscribes ?s + downs nm p ins ?s + idle_unsubscribes nm p ins ?s"
        using Cons.IH [OF _ _ rest, of ?s] s(1,2) CallUnsubscribe by simp
      show ?thesis
        using ih s(3) [of p] s(4) CallUnsubscribe
        by (auto simp: n_subscribes_def n_unsubscribes_def subs_include_def count_of_def)
    qed (use i in simp_all)
  qed
  have "subs_include (subs_counter (snd (subscribe nm p cb d st))) p"
    using subscribe_open(3) [OF assms(1,2), of nm p cb d p]
    by (simp add: subs_include_def count_of_def)
  with counts subscribe_open(4) [OF assms(1,2)] show ?thesis
    by simp
qed

text \<open>
  Two subscribers subscribe to \<open>a/+\<close> and unsubscribe again: one broker-level
  subscribe, one broker-level unsubscribe.
\<close>

theorem broker_calls_per_transition_witness:
  "client AWSIoTAscoltatore \<and> \<not> closed AWSIoTAscoltatore
   \<and> list_all (on_pattern ''a/+'')
        [CallSubscribe ''a/+'' 1 10, CallSubscribe ''a/+'' 2 20,
         CallUnsubscribe ''a/+'' 1 30, CallUnsubscribe ''a/+'' 2 40]
   \<and> n_subscribes (run plain
        [CallSubscribe ''a/+'' 1 10, CallSubscribe ''a/+'' 2 20,
         CallUnsubscribe ''a/+'' 1 30, CallUnsubscribe ''a/+'' 2 40] AWSIoTAscoltatore) = 1
   \<and> n_unsubscribes (run plain
        [CallSubscribe ''a/+'' 1 10, CallSubscribe ''a/+'' 2 20,
         CallUnsubscribe ''a/+'' 1 30, CallUnsubscribe ''a/+'' 2 40] AWSIoTAscoltatore) = 1"
proof -
  let ?ins = "[CallSubscribe ''a/+'' 1 10, CallSubscribe ''a/+'' 2 20,
               CallUnsubscribe ''a/+'' 1 30, CallUnsubscribe ''a/+'' 2 40]"
  have h: "list_all (on_pattern ''a/+'') ?ins"
    by simp
  have u: "ups plain ''a/+'' ?ins AWSIoTAscoltatore = 1"
    and w: "downs plain ''a/+'' ?ins AWSIoTAscoltatore = 1"
    and v: "idle_unsubscribes plain ''a/+'' ?ins AWSIoTAscoltatore = 0"
    by (simp_all add: surface_defs parts_defs count_of_def Let_def)
  have z: "n_subscribes AWSIoTAscoltatore = 0" "n_unsubscribes AWSIoTAscoltatore = 0"
    by (simp_all add: n_subscribes_def n_unsubscribes_def fresh_adapter)
  from broker_calls_per_transition [OF fresh_adapter(1,2) h, of plain]
  show ?thesis
    using h u w v z fresh_adapter(1,2) by simp
qed

text \<open>
  The claim as it was stated (one broker-level unsubscribe per transition from 1 to 0,
  and no other) fails: a subscriber subscribes, unsubscribes and unsubscribes again;
  the count goes from 1 to 0 once, and the broker receives two unsubscribe calls.
\<close>

theorem broker_calls_per_transition_counterexample:
  "downs plain ''a/+''
     [CallSubscribe ''a/+'' 1 10, CallUnsubscribe ''a/+'' 1 20, CallUnsubscribe ''a/+'' 1 30]
     AWSIoTAscoltatore = 1
   \<and> n_unsubscribes AWSIoTAscoltatore = 0
   \<and> n_unsubscribes (run plain
       [CallSubscribe ''a/+'' 1 10, CallUnsubscribe ''a/+'' 1 20, CallUnsubscribe ''a/+'' 1 30]
       AWSIoTAscoltatore) = 2"
  by (simp add: surface_defs parts_defs count_of_def n_unsubscribes_def Let_def)

subsection \<open>Replay on connect\<close>

text \<open>
  C2 says that every connect event, the first and every reconnect, replays the
  counter's \<open>keys()\<close> snapshot to the broker with qos 1 and that \<open>ready\<close> follows
  the acknowledgments. The code does so while it holds the handle
  (\<open>replay_with_handle\<close>), and breaks it on the reconnect that follows an error
  event: a subscriber subscribes to \<open>a\<close>, the transport emits an error, then
  connects again. The error handler has deleted the handle and kept the counter, whose
  snapshot is \<open>a\<close>; the connect handler raises a type error at \<open>that._client\<close>,
  no subscribe reaches the broker (the transport log is as it was before the event),
  \<open>ready\<close> is not emitted and no replay is in progress that could emit it.
\<close>

theorem replay_after_error_raises:
  "subs_keys (subs_counter (run plain [CallSubscribe ''a'' 1 10, EvError ''reset'']
                              AWSIoTAscoltatore)) = [''a'']
   \<and> fst (on_connect plain (run plain [CallSubscribe ''a'' 1 10, EvError ''reset'']
                              AWSIoTAscoltatore)) = Raised TypeError
   \<and> transport (run plain [CallSubscribe ''a'' 1 10, EvError ''reset''] AWSIoTAscoltatore)
       = [TDevice, TSubscribe ''a'' 1 (AckSubscribe 10)]
   \<and> transport (run plain [CallSubscribe ''a'' 1 10, EvError ''reset'', EvConnect]
                  AWSIoTAscoltatore)
       = [TDevice, TSubscribe ''a'' 1 (AckSubscribe 10)]
   \<and> emitted (run plain [CallSubscribe ''a'' 1 10, EvError ''reset'', EvConnect]
                  AWSIoTAscoltatore) = [Error ''reset'']
   \<and> replaying (run plain [CallSubscribe ''a'' 1 10, EvError ''reset'', EvConnect]
                  AWSIoTAscoltatore) = []"
  by (simp add: surface_defs parts_defs Let_def)

subsection \<open>Defaults of publish\<close>

text \<open>
  C3. \<open>publish\<close> without options, or with options that omit a field, forwards the
  message to the transport with qos 1 where the qos is omitted and with retain false
  where the retain flag is omitted; a field that is present is forwarded as it is.
\<close>

theorem publish_defaults:
  assumes "client st" and "\<not> closed st"
  shows "publish nm t m None d st =
           (Returned, call (TPublish (pubTopic nm t) m 1 False (AckPublish d)) st)
       \<and> publish nm t m (Some \<lparr>qos = None, retain = None\<rparr>) d st =
           (Returned, call (TPublish (pubTopic nm t) m 1 False (AckPublish d)) st)
       \<and> publish nm t m (Some \<lparr>qos = Some q, retain = None\<rparr>) d st =
           (Returned, call (TPublish (pubTopic nm t) m q False (AckPublish d)) st)
       \<and> publish nm t m (Some \<lparr>qos = None, retain = Some r\<rparr>) d st =
           (Returned, call (TPublish (pubTopic nm t) m 1 r (AckPublish d)) st)
       \<and> publish nm t m (Some \<lparr>qos = Some q, retain = Some r\<rparr>) d st =
           (Returned, call (TPublish (pubTopic nm t) m q r (AckPublish d)) st)"
  using assms by (simp add: publish_def raiseIfClosed_def)

theorem publish_defaults_witness:
  "client AWSIoTAscoltatore \<and> \<not> closed AWSIoTAscoltatore
   \<and> transport (snd (publish plain ''a/b'' ''hello'' None 7 AWSIoTAscoltatore)) =
       [TDevice, TPublish ''a/b'' ''hello'' 1 False (AckPublish 7)]
   \<and> transport (snd (publish plain ''a/b'' ''hello''
                       (Some \<lparr>qos = Some 0, retain = None\<rparr>) 7 AWSIoTAscoltatore)) =
       [TDevice, TPublish ''a/b'' ''hello'' 0 False (AckPublish 7)]"
  using publish_defaults [OF fresh_adapter(1,2), of plain "''a/b''" "''hello''" 7 0]
    fresh_adapter(1,2,3)
  by (simp add: call_def plain_def)

subsection \<open>Inbound messages\<close>

text \<open>
  C4. The handler of the transport's message event hands nothing to the dispatch
  engine: all it does is to put on the task queue the task that publishes the pair
  (topic translated to the local form, payload) on the engine. The hand-off happens
  in the later turn that runs this task.
\<close>

theorem message_deferred:
  "on_message nm t m k st = st\<lparr>deferred := deferred st @ [EnginePublish (recvTopic nm t) m k]\<rparr>
   \<and> handed (ascoltatore (on_message nm t m k st)) = handed (ascoltatore st)
   \<and> (deferred s = EnginePublish (recvTopic nm t) m k # rest \<longrightarrow>
        handed (ascoltatore (run_deferred s)) = handed (ascoltatore s) @ [(recvTopic nm t, m, k)]
        \<and> deferred (run_deferred s) = rest)"
  by (simp add: on_message_def util_defer_def run_deferred_def engine_publish_def)

theorem message_deferred_witness:
  "deferred (on_message plain ''a/b'' ''hello'' 3 AWSIoTAscoltatore)
     = [EnginePublish ''a/b'' ''hello'' 3]
   \<and> handed (ascoltatore (on_message plain ''a/b'' ''hello'' 3 AWSIoTAscoltatore)) = []
   \<and> handed (ascoltatore (run_deferred (on_message plain ''a/b'' ''hello'' 3 AWSIoTAscoltatore)))
       = [(''a/b'', ''hello'', 3)]"
proof -
  let ?S = "on_message plain ''a/b'' ''hello'' 3 AWSIoTAscoltatore"
  have d: "deferred ?S = EnginePublish (recvTopic plain ''a/b'') ''hello'' 3 # []"
    by (simp add: on_message_def util_defer_def fresh_adapter)
  have h: "handed (ascoltatore ?S) = []"
    by (simp add: on_message_def util_defer_def fresh_adapter)
  from message_deferred [of plain "''a/b''" "''hello''" 3 AWSIoTAscoltatore ?S "[]"] d
  have r: "handed (ascoltatore (run_deferred ?S))
             = handed (ascoltatore ?S) @ [(recvTopic plain ''a/b'', ''hello'', 3)]"
    by blast
  have p: "recvTopic plain ''a/b'' = ''a/b''"
    by (simp add: plain_def)
  show ?thesis
    using d h r p by simp
qed

subsection \<open>Completion of publish\<close>

text \<open>
  C5 says that \<open>done\<close> of \<open>publish\<close> runs only after the transport has
  acknowledged the publish, and deferred relative to the acknowledgment callback. The
  first half holds: \<open>publish\<close> neither runs nor schedules \<open>done\<close>, it passes the
  transport a callback. The second half fails: that callback is \<open>wrap(done)()\<close>,
  which runs \<open>done\<close> in the callback's own turn and leaves the task queue as it is,
  where the acknowledgment callbacks of \<open>subscribe\<close> and \<open>unsubscribe\<close> call
  \<open>defer(done)\<close>. After \<open>publish\<close> and its acknowledgment \<open>done\<close> has run and
  nothing is queued; after \<open>subscribe\<close> and its acknowledgment \<open>done\<close> is queued
  and has not run.
\<close>

theorem publish_done_in_ack_turn:
  "completed (snd (publish nm t m options d st)) = completed st
   \<and> deferred (snd (publish nm t m options d st)) = deferred st
   \<and> on_ack (AckPublish d) s = s\<lparr>completed := completed s @ [d]\<rparr>
   \<and> on_ack (AckSubscribe d) s = s\<lparr>deferred := deferred s @ [InvokeDone d]\<rparr>
   \<and> on_ack (AckUnsubscribe d) s = s\<lparr>deferred := deferred s @ [InvokeDone d]\<rparr>
   \<and> transport (run plain [CallPublish ''a'' ''m'' None 5] AWSIoTAscoltatore)
       = [TDevice, TPublish ''a'' ''m'' 1 False (AckPublish 5)]
   \<and> completed (run plain [CallPublish ''a'' ''m'' None 5, RunDeferred] AWSIoTAscoltatore) = []
   \<and> completed (run plain [CallPublish ''a'' ''m'' None 5, EvAck (AckPublish 5)]
                  AWSIoTAscoltatore) = [5]
   \<and> deferred (run plain [CallPublish ''a'' ''m'' None 5, EvAck (AckPublish 5)]
                 AWSIoTAscoltatore) = []
   \<and> completed (run plain [CallSubscribe ''a'' 1 6, EvAck (AckSubscribe 6)]
                  AWSIoTAscoltatore) = []
   \<and> deferred (run plain [CallSubscribe ''a'' 1 6, EvAck (AckSubscribe 6)]
                 AWSIoTAscoltatore) = [InvokeDone 6]"
  by (simp add: publish_frame surface_defs parts_defs Let_def)

subsection \<open>Transport errors\<close>

text \<open>
  C6. The handler of the transport's error event deletes the transport handle and
  emits an error event that carries the error. It changes nothing else: the
  subscription counter and the dispatch engine are as before, no call is made on the
  transport (no new connection is started), no task is scheduled that could start
  one, and whatever turns follow, the adapter has no handle.
\<close>

theorem error_event:
  "on_error e st = st\<lparr>client := False, emitted := emitted st @ [Error e]\<rparr>
   \<and> \<not> client (on_error e st)
   \<and> emitted (on_error e st) = emitted st @ [Error e]
   \<and> subs_counter (on_error e st) = subs_counter st
   \<and> ascoltatore (on_error e st) = ascoltatore st
   \<and> transport (on_error e st) = transport st
   \<and> deferred (on_error e st) = deferred st
   \<and> \<not> client (run nm ins (on_error e st))"
  by (simp add: on_error_def emit_def no_client_run)

subsection \<open>Closing\<close>

text \<open>
  C7 says that \<open>close\<close> is idempotent: called twice, it requests the end of the
  transport at most once. The code does so when the second call comes after the
  transport's close event (\<open>close_after_close_event\<close>: the adapter is closed, the
  call runs \<open>done\<close> and changes nothing else), and breaks it when the second call
  comes before: \<open>_closed\<close> is still false, so the second call clears the counter,
  registers a second listener and requests the end of the transport again; at the
  close event both listeners run and \<open>closed\<close> is emitted twice.
\<close>

theorem close_twice_ends_twice:
  "fst (close 1 AWSIoTAscoltatore) = Returned
   \<and> fst (close 2 (snd (close 1 AWSIoTAscoltatore))) = Returned
   \<and> transport (run plain [CallClose 1, CallClose 2] AWSIoTAscoltatore) = [TDevice, TEnd, TEnd]
   \<and> n_ends (run plain [CallClose 1, CallClose 2] AWSIoTAscoltatore) = 2
   \<and> emitted (run plain [CallClose 1, CallClose 2, EvClose] AWSIoTAscoltatore) = [Closed, Closed]
   \<and> n_ends (run plain [CallClose 1, EvClose, CallClose 2] AWSIoTAscoltatore) = 1
   \<and> completed (run plain [CallClose 1, EvClose, CallClose 2] AWSIoTAscoltatore) = [2]"
  by (simp add: surface_defs subs_clear_def engine_close_def engine_new_def n_ends_def Let_def)

text \<open>
  C8. Once \<open>close\<close> has completed (the transport has acknowledged it), and whatever
  turns follow, the adapter is closed and has no transport handle, and each of
  \<open>subscribe\<close>, \<open>unsubscribe\<close> and \<open>publish\<close> raises the closed error and leaves
  the state as it is: no call is made on the transport.
\<close>

theorem closed_fails_fast:
  assumes "client s0" and "\<not> closed s0"
  shows "let st = run nm ins (on_close (snd (close d0 s0))) in
           closed st \<and> \<not> client st
         \<and> subscribe nm t cb d st = (Raised ClosedError, st)
         \<and> unsubscribe nm t cb d st = (Raised ClosedError, st)
         \<and> publish nm t m options d st = (Raised ClosedError, st)"
proof -
  let ?c = "on_close (snd (close d0 s0))"
  have "closed ?c" and "\<not> client ?c"
    by (simp_all add: close_open [OF assms] on_close_eq)
  then have "closed (run nm ins ?c)" and "\<not> client (run nm ins ?c)"
    by (simp_all add: closed_run no_client_run)
  then show ?thesis
    by (simp add: closed_raises Let_def)
qed

theorem closed_fails_fast_witness:
  "client AWSIoTAscoltatore \<and> \<not> closed AWSIoTAscoltatore
   \<and> fst (subscribe plain ''a'' 1 2 (run plain [CallClose 9, EvClose] AWSIoTAscoltatore))
       = Raised ClosedError
   \<and> fst (unsubscribe plain ''a'' 1 2 (run plain [CallClose 9, EvClose] AWSIoTAscoltatore))
       = Raised ClosedError
   \<and> fst (publish plain ''a'' ''m'' None 2 (run plain [CallClose 9, EvClose] AWSIoTAscoltatore))
       = Raised ClosedError
   \<and> transport (snd (publish plain ''a'' ''m'' None 2
         (run plain [CallClose 9, EvClose] AWSIoTAscoltatore))) = [TDevice, TEnd]"
proof -
  have t: "transport (run plain [CallClose 9, EvClose] AWSIoTAscoltatore) = [TDevice, TEnd]"
    by (simp add: surface_defs subs_clear_def Let_def)
  from closed_fails_fast [OF fresh_adapter(1,2), of plain "[]" 9 "''a''" 1 2 "''m''" None]
  show ?thesis
    using t fresh_adapter(1,2) by (simp add: Let_def)
qed

subsection \<open>Counter and engine\<close>

text \<open>
  C9, as amended. A pattern is in the counter's mapping exactly when its count is
  positive, after every turn whatsoever. The count of a pattern is the number of
  registrations that are live in the dispatch engine for that exact pattern after
  every turn of every run on an adapter that has no close in progress, started where
  this holds (the fresh adapter is such a state), in which every \<open>subscribe\<close>
  registers a well-formed pattern with a callback that is not registered for it, every
  \<open>unsubscribe\<close> names a callback that is registered for the pattern, and \<open>close\<close>
  is called only on a closed adapter; the other operations, the transport's events,
  the acknowledgments and the deferred tasks come as they will.
\<close>

theorem sync_along_run:
  assumes "in_sync st p" and "close_listeners st = []" and "conforming nm ins st"
  shows "in_sync (run nm ins st) p
       \<and> close_listeners (run nm ins st) = []
       \<and> subs_ok (subs_counter (run nm ins' st))
       \<and> (0 < count_of (run nm ins' st) q) = subs_present (subs_counter (run nm ins' st)) q"
proof -
  have along: "in_sync (run nm ins st) p \<and> close_listeners (run nm ins st) = []"
    using assms
  proof (induction ins arbitrary: st)
    case Nil
    then show ?case by simp
  next
    case (Cons i ins)
    from Cons.prems(3) have u: "ok_use i st" and c: "conforming nm ins (step nm i st)"
      by simp_all
    from Cons.IH [OF sync_step [OF Cons.prems(1,2) u] listeners_step [OF Cons.prems(2) u] c]
    show ?case by simp
  qed
  from assms(1) have "subs_ok (subs_counter st)"
    by (simp add: in_sync_def)
  then have ok: "subs_ok (subs_counter (run nm ins' st))"
    by (rule subs_ok_run)
  have "(0 < count_of (run nm ins' st) q) = subs_present (subs_counter (run nm ins' st)) q"
    using subs_ok_present [OF ok, of q] by (simp add: count_of_def)
  with along ok show ?thesis
    by (intro conjI) simp_all
qed

text \<open>
  Two subscribers subscribe to \<open>a/#\<close>, the transport reports an error, one of them
  unsubscribes, a message arrives and is dispatched: count and registrations are 1.
\<close>

theorem sync_along_run_witness:
  "in_sync AWSIoTAscoltatore ''a/#''
   \<and> close_listeners AWSIoTAscoltatore = []
   \<and> conforming plain
        [CallSubscribe ''a/#'' 1 10, CallSubscribe ''a/#'' 2 20, EvError ''reset'',
         CallUnsubscribe ''a/#'' 1 30, EvMessage ''a/b'' ''m'' 0, RunDeferred] AWSIoTAscoltatore
   \<and> in_sync (run plain
        [CallSubscribe ''a/#'' 1 10, CallSubscribe ''a/#'' 2 20, EvError ''reset'',
         CallUnsubscribe ''a/#'' 1 30, EvMessage ''a/b'' ''m'' 0, RunDeferred] AWSIoTAscoltatore)
        ''a/#''
   \<and> count_of (run plain
        [CallSubscribe ''a/#'' 1 10, CallSubscribe ''a/#'' 2 20, EvError ''reset'',
         CallUnsubscribe ''a/#'' 1 30, EvMessage ''a/b'' ''m'' 0, RunDeferred] AWSIoTAscoltatore)
        ''a/#'' = 1
   \<and> registrations (ascoltatore (run plain
        [CallSubscribe ''a/#'' 1 10, CallSubscribe ''a/#'' 2 20, EvError ''reset'',
         CallUnsubscribe ''a/#'' 1 30, EvMessage ''a/b'' ''m'' 0, RunDeferred] AWSIoTAscoltatore))
        ''a/#'' = 1"
proof -
  let ?ins = "[CallSubscribe ''a/#'' 1 10, CallSubscribe ''a/#'' 2 20, EvError ''reset'',
               CallUnsubscribe ''a/#'' 1 30, EvMessage ''a/b'' ''m'' 0, RunDeferred]"
  have c: "conforming plain ?ins AWSIoTAscoltatore"
    by (simp add: surface_defs parts_defs Let_def)
  have n: "count_of (run plain ?ins AWSIoTAscoltatore) ''a/#'' = 1"
    by (simp add: surface_defs parts_defs count_of_def Let_def)
  from sync_along_run [OF fresh_in_sync fresh_adapter(4) c]
  have i: "in_sync (run plain ?ins AWSIoTAscoltatore) ''a/#''"
    by (rule conjunct1)
  then have "registrations (ascoltatore (run plain ?ins AWSIoTAscoltatore)) ''a/#''
      = count_of (run plain ?ins AWSIoTAscoltatore) ''a/#''"
    by (simp add: in_sync_def)
  with fresh_in_sync [of "''a/#''"] fresh_adapter(4) c n i show ?thesis
    by (simp only: simp_thms)
qed

text \<open>
  The claim as it was stated fails in two ways. The same callback subscribes twice to
  the same pattern: both calls return, the counter counts two and the engine, where
  the second registration changes nothing, holds one. And \<open>close\<close> is called on an
  open adapter: the call clears the counter and returns, the engine keeps its
  registration until the transport's close event; a subscriber that comes in between,
  with a callback of its own, is counted, and the close event then discards its
  registration.
\<close>

theorem sync_along_run_counterexample:
  "fst (subscribe plain ''a/#'' 1 10 AWSIoTAscoltatore) = Returned
   \<and> fst (subscribe plain ''a/#'' 1 20 (snd (subscribe plain ''a/#'' 1 10 AWSIoTAscoltatore)))
       = Returned
   \<and> count_of (run plain [CallSubscribe ''a/#'' 1 10, CallSubscribe ''a/#'' 1 20]
                  AWSIoTAscoltatore) ''a/#'' = 2
   \<and> registrations (ascoltatore (run plain [CallSubscribe ''a/#'' 1 10, CallSubscribe ''a/#'' 1 20]
                  AWSIoTAscoltatore)) ''a/#'' = 1
   \<and> fst (close 20 (run plain [CallSubscribe ''a/#'' 1 10] AWSIoTAscoltatore)) = Returned
   \<and> count_of (run plain [CallSubscribe ''a/#'' 1 10, CallClose 20] AWSIoTAscoltatore) ''a/#'' = 0
   \<and> registrations (ascoltatore (run plain [CallSubscribe ''a/#'' 1 10, CallClose 20]
                  AWSIoTAscoltatore)) ''a/#'' = 1
   \<and> count_of (run plain [CallSubscribe ''a/#'' 1 10, CallClose 20, CallSubscribe ''a/#'' 2 30,
                            EvClose] AWSIoTAscoltatore) ''a/#'' = 1
   \<and> registrations (ascoltatore (run plain [CallSubscribe ''a/#'' 1 10, CallClose 20,
                            CallSubscribe ''a/#'' 2 30, EvClose] AWSIoTAscoltatore)) ''a/#'' = 0"
  by (simp add: surface_defs parts_defs count_of_def Let_def)

subsection \<open>After a transport error\<close>

text \<open>
  C10, as amended. When a transport error event reaches an adapter that is not closed
  and has no close in progress, then whatever turns follow, the adapter has no
  transport handle (nothing recreates it) and is not closed, so that \<open>subscribe\<close>
  for a pattern whose count is 0, \<open>publish\<close> and \<open>close\<close> each dereference the
  absent handle and raise a type error.
\<close>

theorem no_handle_after_error:
  assumes "\<not> closed st" and "close_listeners st = []"
  shows "let s = run nm ins (on_error e st) in
           \<not> client s
         \<and> (\<not> subs_include (subs_counter s) t \<longrightarrow>
              fst (subscribe nm t cb d s) = Raised TypeError)
         \<and> fst (publish nm t m options d s) = Raised TypeError
         \<and> fst (close d s) = Raised TypeError"
proof -
  have "\<not> client (on_error e st)" "\<not> closed (on_error e st)" "close_listeners (on_error e st) = []"
    using assms by (simp_all add: on_error_def emit_def)
  from dead_run [OF this, of nm ins] show ?thesis
    by (simp add: Let_def subscribe_def publish_def close_def raiseIfClosed_def)
qed

theorem no_handle_after_error_witness:
  "\<not> closed AWSIoTAscoltatore \<and> close_listeners AWSIoTAscoltatore = []
   \<and> \<not> subs_include (subs_counter (run plain [EvError ''reset'', EvConnect] AWSIoTAscoltatore)) ''a''
   \<and> fst (subscribe plain ''a'' 1 10 (run plain [EvError ''reset'', EvConnect] AWSIoTAscoltatore))
       = Raised TypeError
   \<and> fst (publish plain ''a'' ''m'' None 10 (run plain [EvError ''reset'', EvConnect] AWSIoTAscoltatore))
       = Raised TypeError
   \<and> fst (close 10 (run plain [EvError ''reset'', EvConnect] AWSIoTAscoltatore))
       = Raised TypeError"
proof -
  have r: "run plain [EvError ''reset'', EvConnect] AWSIoTAscoltatore
            = run plain [EvConnect] (on_error ''reset'' AWSIoTAscoltatore)"
    by simp
  have i: "\<not> subs_include (subs_counter (run plain [EvConnect] (on_error ''reset'' AWSIoTAscoltatore))) ''a''"
    by (simp add: surface_defs parts_defs Let_def)
  from no_handle_after_error [OF fresh_adapter(2,4), of plain "[EvConnect]" "''reset''" "''a''" 1 10
      "''m''" None] i
  show ?thesis
    unfolding r Let_def using fresh_adapter(2,4) by blast
qed

text \<open>
  The claim as it was stated fails when the error event comes while a close is in
  progress: the error handler deletes the handle, the transport's close event then
  runs the close listener, the adapter is closed, and from then on \<open>publish\<close> and
  \<open>subscribe\<close> raise the closed error and \<open>close\<close> returns.
\<close>

theorem no_handle_after_error_counterexample:
  "client (run plain [CallClose 1] AWSIoTAscoltatore)
   \<and> \<not> client (run plain [CallClose 1, EvError ''reset''] AWSIoTAscoltatore)
   \<and> fst (publish plain ''a'' ''m'' None 10
            (run plain [CallClose 1, EvError ''reset'', EvClose] AWSIoTAscoltatore))
       = Raised ClosedError
   \<and> fst (subscribe plain ''a'' 1 10
            (run plain [CallClose 1, EvError ''reset'', EvClose] AWSIoTAscoltatore))
       = Raised ClosedError
   \<and> fst (close 10 (run plain [CallClose 1, EvError ''reset'', EvClose] AWSIoTAscoltatore))
       = Returned"
  by (simp add: surface_defs parts_defs Let_def)

end
